theory Spec2Isabelle
  imports Main "HOL-Library.Char_ord" "HOL-Library.List_Lexorder" "HOL-Library.Multiset"
begin

section \<open>Data model of \<open>inspect_rounds_schema.py\<close>\<close>

text \<open>
  A Python \<open>str\<close> is modelled as a \<^typ>\<open>string\<close>: the list of its code points, for
  code points below 256 (one \<^typ>\<open>char\<close> each). The order on strings is the
  lexicographic order by code point, which is how Python compares \<open>str\<close> values.

  A value returned by \<open>json.load\<close>: \<open>None\<close>, a \<open>bool\<close>, an \<open>int\<close> (unbounded), a
  \<open>float\<close>, a \<open>str\<close>, a \<open>list\<close> or a \<open>dict\<close>. A float is carried as its \<open>repr\<close>, the
  shortest decimal text that reads back as the same double. A dict is the list of its
  items in insertion order; the keys of a Python dict are pairwise distinct.
\<close>

datatype json =
    JNull
  | JBool bool
  | JInt int
  | JFloat string
  | JStr string
  | JArr "json list"
  | JObj "(string \<times> json) list"

text \<open>What \<open>json.load\<close> does on one file: it raises, or it returns the document.\<close>

datatype loaded = Malformed | Document json

datatype error = SystemExit string | ParseError

text \<open>
  The part of the file system the script reads: whether \<open>ROUNDS_DIR\<close> is a directory,
  what \<open>os.listdir\<close> yields for it (in that order), and the file behind every path.
\<close>

record env =
  isdir :: bool
  listdir :: "string list"
  files :: "string \<Rightarrow> loaded"

text \<open>
  The three accumulators of \<open>main\<close>. A \<open>Counter\<close> is a dict, so it keeps its keys in
  the order of their first insertion: an association list. \<open>sample_values\<close> is a
  \<open>defaultdict(list)\<close>, read only by key: a total function whose default is \<open>[]\<close>.
\<close>

record stats =
  key_counts :: "(string \<times> nat) list"
  sample_values :: "string \<Rightarrow> json list"
  round_shapes :: "(string list \<times> nat) list"

text \<open>What a run leaves behind: the texts given to \<open>print\<close>, in order (each is followed
  by a newline on standard output), and the exception that ended the run, if any.\<close>

record run =
  stdout :: "string list"
  status :: "error option"

section \<open>Python primitives used by the script\<close>

definition ROUNDS_DIR :: string where
  "ROUNDS_DIR = ''rounds''"

text \<open>\<open>s.endswith(suf)\<close>\<close>

definition endswith :: "string \<Rightarrow> string \<Rightarrow> bool" where
  "endswith s suf = (length suf \<le> length s \<and> drop (length s - length suf) s = suf)"

text \<open>\<open>os.path.join(d, fn)\<close> for a directory entry \<open>fn\<close> (which holds no separator).\<close>

definition path_join :: "string \<Rightarrow> string \<Rightarrow> string" where
  "path_join d fn = d @ ''/'' @ fn"

text \<open>\<open>p in s\<close> for two strings: \<open>p\<close> occurs in \<open>s\<close> as a contiguous run.\<close>

fun starts_with :: "string \<Rightarrow> string \<Rightarrow> bool" where
  "starts_with [] s = True"
| "starts_with (p # ps) [] = False"
| "starts_with (p # ps) (c # cs) = (p = c \<and> starts_with ps cs)"

fun str_in :: "string \<Rightarrow> string \<Rightarrow> bool" where
  "str_in p [] = (p = [])"
| "str_in p (c # cs) = (starts_with p (c # cs) \<or> str_in p cs)"

text \<open>\<open>s.lower()\<close> on code points below 256: the letters A to Z and the capital
  letters of Latin-1 (U+00C0 to U+00DE except the multiplication sign U+00D7) move up
  by 32; every other code point stays.\<close>

definition lower_char :: "char \<Rightarrow> char" where
  "lower_char c =
     (let n = (of_char c :: nat)
      in if (65 \<le> n \<and> n \<le> 90) \<or> (192 \<le> n \<and> n \<le> 222 \<and> n \<noteq> 215)
         then char_of (n + 32) else c)"

definition lower :: "string \<Rightarrow> string" where
  "lower s = map lower_char s"

text \<open>Truth value of a JSON value, as \<open>or\<close> and \<open>not\<close> take it.\<close>

fun truthy :: "json \<Rightarrow> bool" where
  "truthy JNull = False"
| "truthy (JBool b) = b"
| "truthy (JInt i) = (i \<noteq> 0)"
| "truthy (JFloat r) = (r \<noteq> ''0.0'' \<and> r \<noteq> ''-0.0'')"
| "truthy (JStr s) = (s \<noteq> [])"
| "truthy (JArr xs) = (xs \<noteq> [])"
| "truthy (JObj kvs) = (kvs \<noteq> [])"

text \<open>\<open>d.get(k)\<close>: the value under \<open>k\<close>, \<open>None\<close> when the key is absent.\<close>

definition dict_get :: "(string \<times> json) list \<Rightarrow> string \<Rightarrow> json" where
  "dict_get kvs k = (case map_of kvs k of None \<Rightarrow> JNull | Some v \<Rightarrow> v)"

text \<open>\<open>a or b\<close>\<close>

definition py_or :: "json \<Rightarrow> json \<Rightarrow> json" where
  "py_or a b = (if truthy a then a else b)"

text \<open>\<open>c[k] += 1\<close> on a \<open>Counter\<close>: a key already there keeps its place, a new key goes
  to the end with count 1.\<close>

fun bump :: "'k \<Rightarrow> ('k \<times> nat) list \<Rightarrow> ('k \<times> nat) list" where
  "bump k [] = [(k, 1)]"
| "bump k ((k', c) # rest) =
     (if k = k' then (k', c + 1) # rest else (k', c) # bump k rest)"

text \<open>\<open>c.most_common(n)\<close>: the items sorted by count, largest first, equal counts in
  the order of the dict (Python sorts with \<open>reverse=True\<close> by reversing, sorting stably
  and reversing again), cut to the first \<open>n\<close>.\<close>

definition ranking :: "('k \<times> nat) list \<Rightarrow> ('k \<times> nat) list" where
  "ranking c = rev (sort_key snd (rev c))"

definition most_common :: "nat \<Rightarrow> ('k \<times> nat) list \<Rightarrow> ('k \<times> nat) list" where
  "most_common n c = take n (ranking c)"

section \<open>Accumulation\<close>

definition empty_stats :: stats where
  "empty_stats = \<lparr>key_counts = [], sample_values = (\<lambda>k. []), round_shapes = []\<rparr>"

text \<open>Lines 47 to 49: one item of a record.\<close>

definition add_item :: "stats \<Rightarrow> string \<times> json \<Rightarrow> stats" where
  "add_item st kv =
     (let k = fst kv; v = snd kv;
          st1 = st\<lparr>key_counts := bump k (key_counts st)\<rparr>
      in if length (sample_values st1 k) < 5
         then st1\<lparr>sample_values := (sample_values st1)(k := sample_values st1 k @ [v])\<rparr>
         else st1)"

text \<open>\<open>tuple(sorted(r.keys()))\<close>\<close>

definition shape_of :: "(string \<times> json) list \<Rightarrow> string list" where
  "shape_of r = sort (map fst r)"

text \<open>Lines 43 to 49: one record that is a dict.\<close>

definition add_record :: "stats \<Rightarrow> (string \<times> json) list \<Rightarrow> stats" where
  "add_record st r =
     foldl add_item (st\<lparr>round_shapes := bump (shape_of r) (round_shapes st)\<rparr>) r"

text \<open>Lines 40 to 49: the loop over the sampled rounds; an entry that is not a dict
  is passed over.\<close>

fun scan_rounds :: "stats \<Rightarrow> json list \<Rightarrow> stats" where
  "scan_rounds st [] = st"
| "scan_rounds st (JObj r # rs) = scan_rounds (add_record st r) rs"
| "scan_rounds st (_ # rs) = scan_rounds st rs"

text \<open>Lines 32 to 35: the rounds of a document.\<close>

fun rounds_of :: "json \<Rightarrow> json" where
  "rounds_of (JObj d) =
     py_or (py_or (py_or (dict_get d ''rounds'') (dict_get d ''data'')) (dict_get d ''items''))
       (JArr [])"
| "rounds_of data = data"

text \<open>Lines 32 to 49: one parsed file. Anything but a non-empty list is skipped.\<close>

definition scan_file :: "stats \<Rightarrow> json \<Rightarrow> stats" where
  "scan_file st data =
     (case rounds_of data of
        JArr (r # rs) \<Rightarrow> scan_rounds st (take 25 (r # rs))
      | _ \<Rightarrow> st)"

text \<open>Lines 26 to 49: the loop over the files; a file that does not parse ends it.\<close>

fun scan_files :: "env \<Rightarrow> stats \<Rightarrow> string list \<Rightarrow> error + stats" where
  "scan_files e st [] = Inr st"
| "scan_files e st (fn # fns) =
     (case files e (path_join ROUNDS_DIR fn) of
        Malformed \<Rightarrow> Inl ParseError
      | Document data \<Rightarrow> scan_files e (scan_file st data) fns)"

text \<open>Lines 15 and 20: the files that are read.\<close>

definition json_files :: "env \<Rightarrow> string list" where
  "json_files e = filter (\<lambda>f. endswith f ''.json'') (listdir e)"

definition selected :: "env \<Rightarrow> string list" where
  "selected e = take 200 (json_files e)"

section \<open>The report\<close>

text \<open>\<open>str(n)\<close> for a count and for an \<open>int\<close>: decimal digits.\<close>

fun str_nat :: "nat \<Rightarrow> string" where
  "str_nat n =
     (if n < 10 then [char_of (48 + n)]
      else str_nat (n div 10) @ [char_of (48 + n mod 10)])"

declare str_nat.simps [simp del]

definition str_int :: "int \<Rightarrow> string" where
  "str_int i = (if i < 0 then ''-'' @ str_nat (nat (- i)) else str_nat (nat i))"

text \<open>\<open>f"{k:30}"\<close> for a string: spaces are added on the right up to the width; a
  longer string is left as it is.\<close>

definition ljust :: "nat \<Rightarrow> string \<Rightarrow> string" where
  "ljust w s = s @ replicate (w - length s) CHR '' ''"

text \<open>\<open>sep.join(parts)\<close>\<close>

fun join :: "string \<Rightarrow> string list \<Rightarrow> string" where
  "join sep [] = []"
| "join sep [p] = p"
| "join sep (p # q # ps) = p @ sep @ join sep (q # ps)"

text \<open>\<open>repr\<close> of a string, on code points below 256. The quote is the apostrophe,
  unless the string holds an apostrophe and no double quote. The quote and the
  backslash are escaped, tab, newline and carriage return have their letters, and the
  code points that are not printable (below U+0020, U+007F to U+00A0, U+00AD) are
  written \<open>\xhh\<close>.\<close>

definition hex_digit :: "nat \<Rightarrow> char" where
  "hex_digit d = (if d < 10 then char_of (48 + d) else char_of (87 + d))"

definition repr_char :: "char \<Rightarrow> char \<Rightarrow> string" where
  "repr_char q c =
     (let n = (of_char c :: nat)
      in if c = q \<or> n = 92 then [CHR 0x5C, c]
         else if n = 9 then [CHR 0x5C, CHR ''t'']
         else if n = 10 then [CHR 0x5C, CHR ''n'']
         else if n = 13 then [CHR 0x5C, CHR ''r'']
         else if n < 32 \<or> (127 \<le> n \<and> n \<le> 160) \<or> n = 173
           then [CHR 0x5C, CHR ''x'', hex_digit (n div 16), hex_digit (n mod 16)]
         else [c])"

definition repr_str :: "string \<Rightarrow> string" where
  "repr_str s =
     (let q = (if CHR 0x27 \<in> set s \<and> CHR 0x22 \<notin> set s then CHR 0x22 else CHR 0x27)
      in q # concat (map (repr_char q) s) @ [q])"

text \<open>\<open>repr\<close> of a list, given the \<open>repr\<close> of its elements.\<close>

definition repr_list :: "string list \<Rightarrow> string" where
  "repr_list parts = ''['' @ join '', '' parts @ '']''"

fun py_repr :: "json \<Rightarrow> string" where
  "py_repr JNull = ''None''"
| "py_repr (JBool b) = (if b then ''True'' else ''False'')"
| "py_repr (JInt i) = str_int i"
| "py_repr (JFloat r) = r"
| "py_repr (JStr s) = repr_str s"
| "py_repr (JArr xs) = repr_list (map py_repr xs)"
| "py_repr (JObj kvs) =
     ''{'' @ join '', '' (map (\<lambda>kv. repr_str (fst kv) @ '': '' @ py_repr (snd kv)) kvs) @ ''}''"

text \<open>\<open>str(v)\<close>, which \<open>print\<close> applies: a string is printed as it is.\<close>

fun py_str :: "json \<Rightarrow> string" where
  "py_str (JStr s) = s"
| "py_str v = py_repr v"

text \<open>Lines 62 to 72: the four lists of candidate keys.\<close>

record candidates =
  date :: "string list"
  score :: "string list"
  course :: "string list"
  tournament :: "string list"

definition classify :: "candidates \<Rightarrow> string \<Rightarrow> candidates" where
  "classify c k =
     (let lk = lower k;
          c1 = (if str_in ''date'' lk \<or> str_in ''time'' lk
                then c\<lparr>date := date c @ [k]\<rparr> else c);
          c2 = (if str_in ''score'' lk \<or> str_in ''strokes'' lk
                   \<or> lk \<in> set [''r1'', ''r2'', ''r3'', ''r4'']
                then c1\<lparr>score := score c1 @ [k]\<rparr> else c1);
          c3 = (if str_in ''course'' lk \<or> str_in ''club'' lk \<or> str_in ''venue'' lk
                then c2\<lparr>course := course c2 @ [k]\<rparr> else c2)
      in if str_in ''tournament'' lk \<or> str_in ''event'' lk
         then c3\<lparr>tournament := tournament c3 @ [k]\<rparr> else c3)"

definition guess :: "string list \<Rightarrow> candidates" where
  "guess ks = foldl classify \<lparr>date = [], score = [], course = [], tournament = []\<rparr> ks"

text \<open>Lines 51 to 53.\<close>

definition key_line :: "string \<times> nat \<Rightarrow> string" where
  "key_line kc = ljust 30 (fst kc) @ ''  '' @ str_nat (snd kc)"

definition top_keys :: "stats \<Rightarrow> string list" where
  "top_keys st =
     (CHR 0x0A # ''=== TOP KEYS (most common) ==='')
     # map key_line (most_common 40 (key_counts st))"

text \<open>Lines 55 to 59.\<close>

definition sample_block :: "stats \<Rightarrow> string \<Rightarrow> string list" where
  "sample_block st k =
     (CHR 0x0A # k @ '':'') # map (\<lambda>v. ''   '' @ py_str v) (take 5 (sample_values st k))"

definition samples :: "stats \<Rightarrow> string list" where
  "samples st =
     (CHR 0x0A # ''=== SAMPLE VALUES (first few) ==='')
     # concat (map (sample_block st) (take 30 (map fst (key_counts st))))"

text \<open>Lines 74 to 76.\<close>

definition heuristics :: "stats \<Rightarrow> string list" where
  "heuristics st =
     (let c = guess (map fst (key_counts st))
      in [CHR 0x0A # ''=== HEURISTIC FIELD CANDIDATES ==='',
          ''date: '' @ repr_list (map repr_str (date c)),
          ''score: '' @ repr_list (map repr_str (score c)),
          ''course: '' @ repr_list (map repr_str (course c)),
          ''tournament: '' @ repr_list (map repr_str (tournament c))])"

text \<open>Lines 78 to 81.\<close>

definition shape_block :: "string list \<times> nat \<Rightarrow> string list" where
  "shape_block sc =
     [CHR 0x0A # ''Count: '' @ str_nat (snd sc),
      ''Keys: '' @ repr_list (map repr_str (fst sc))]"

definition shapes :: "stats \<Rightarrow> string list" where
  "shapes st =
     (CHR 0x0A # ''=== MOST COMMON ROUND SHAPES (key sets) ==='')
     # concat (map shape_block (most_common 5 (round_shapes st)))"

definition report :: "stats \<Rightarrow> string list" where
  "report st = top_keys st @ samples st @ heuristics st @ shapes st"

section \<open>The run\<close>

definition main :: "env \<Rightarrow> run" where
  "main e =
     (if \<not> isdir e
      then \<lparr>stdout = [],
            status = Some (SystemExit (''Could not find folder: '' @ ROUNDS_DIR
                       @ ''. Update ROUNDS_DIR in the script.''))\<rparr>
      else if json_files e = []
      then \<lparr>stdout = [],
            status = Some (SystemExit (''No .json files found in '' @ ROUNDS_DIR))\<rparr>
      else (case scan_files e empty_stats (selected e) of
              Inl err \<Rightarrow> \<lparr>stdout = [], status = Some err\<rparr>
            | Inr st \<Rightarrow> \<lparr>stdout = report st, status = None\<rparr>))"

section \<open>Notions used to state the properties\<close>

text \<open>The alias rule in the words of the specification: the first of the three keys
  that is present in the mapping, whatever its value.\<close>

definition first_present_alias :: "(string \<times> json) list \<Rightarrow> json" where
  "first_present_alias d =
     (case List.find (\<lambda>a. map_of d a \<noteq> None) [''rounds'', ''data'', ''items''] of
        None \<Rightarrow> JArr []
      | Some a \<Rightarrow> dict_get d a)"

text \<open>The alias rule of the code: the first of the three keys that is present with a
  value that counts as true.\<close>

definition usable :: "(string \<times> json) list \<Rightarrow> string \<Rightarrow> bool" where
  "usable d a = (case map_of d a of None \<Rightarrow> False | Some v \<Rightarrow> truthy v)"

definition first_truthy_alias :: "(string \<times> json) list \<Rightarrow> json" where
  "first_truthy_alias d =
     (case List.find (usable d) [''rounds'', ''data'', ''items''] of
        None \<Rightarrow> JArr []
      | Some a \<Rightarrow> dict_get d a)"

text \<open>\<open>c[k]\<close> on a \<open>Counter\<close>: a missing key counts 0.\<close>

definition counter_get :: "('k \<times> nat) list \<Rightarrow> 'k \<Rightarrow> nat" where
  "counter_get c k = (case map_of c k of None \<Rightarrow> 0 | Some n \<Rightarrow> n)"

text \<open>The sum of all counts of a \<open>Counter\<close>.\<close>

definition total :: "('k \<times> nat) list \<Rightarrow> nat" where
  "total c = sum_list (map snd c)"

text \<open>\<open>isinstance(r, dict)\<close>, and the items of a dict.\<close>

fun is_dict :: "json \<Rightarrow> bool" where
  "is_dict (JObj r) = True"
| "is_dict _ = False"

fun items_of :: "json \<Rightarrow> (string \<times> json) list" where
  "items_of (JObj r) = r"
| "items_of _ = []"

text \<open>The records for which the body of the inner loop (lines 43 to 49) runs, in the
  order in which it runs: per list of rounds, per document, and over the files.\<close>

fun dict_entries :: "json list \<Rightarrow> (string \<times> json) list list" where
  "dict_entries [] = []"
| "dict_entries (JObj r # rs) = r # dict_entries rs"
| "dict_entries (_ # rs) = dict_entries rs"

definition sampled_records :: "json \<Rightarrow> (string \<times> json) list list" where
  "sampled_records data =
     (case rounds_of data of
        JArr (r # rs) \<Rightarrow> dict_entries (take 25 (r # rs))
      | _ \<Rightarrow> [])"

fun accumulated :: "env \<Rightarrow> string list \<Rightarrow> (string \<times> json) list list" where
  "accumulated e [] = []"
| "accumulated e (fn # fns) =
     (case files e (path_join ROUNDS_DIR fn) of
        Malformed \<Rightarrow> []
      | Document data \<Rightarrow> sampled_records data @ accumulated e fns)"

text \<open>The values under one key in a sequence of items, in the order of the items.\<close>

definition occurrences :: "string \<Rightarrow> (string \<times> json) list \<Rightarrow> json list" where
  "occurrences k kvs = map snd (filter (\<lambda>kv. fst kv = k) kvs)"

text \<open>The number that a string of decimal digits denotes.\<close>

definition dec_value :: "string \<Rightarrow> nat" where
  "dec_value s = foldl (\<lambda>a c. 10 * a + (of_char c - 48)) 0 s"

text \<open>What the accumulation loop maintains: the keys of \<open>key_counts\<close> are distinct,
  every count is positive, and every key has as many samples as its count, up to 5.\<close>

definition counted :: "stats \<Rightarrow> bool" where
  "counted st \<longleftrightarrow>
     distinct (map fst (key_counts st)) \<and>
     (\<forall>p \<in> set (key_counts st). 0 < snd p) \<and>
     (\<forall>k. length (sample_values st k) = min 5 (counter_get (key_counts st) k))"

text \<open>A corpus of one file with six rounds, each holding the key \<open>a\<close>, and the
  statistics the script gathers from it.\<close>

definition six_rounds :: json where
  "six_rounds = JArr [JObj [(''a'', JInt 1)], JObj [(''a'', JInt 2)], JObj [(''a'', JInt 3)],
                      JObj [(''a'', JInt 4)], JObj [(''a'', JInt 5)], JObj [(''a'', JInt 6)]]"

definition six_rounds_env :: env where
  "six_rounds_env = \<lparr>isdir = True, listdir = [''p.json''], files = (\<lambda>p. Document six_rounds)\<rparr>"

definition six_rounds_stats :: stats where
  "six_rounds_stats =
     \<lparr>key_counts = [(''a'', 6)],
      sample_values = (\<lambda>k. [])(''a'' := [JInt 1, JInt 2, JInt 3, JInt 4, JInt 5]),
      round_shapes = [([''a''], 6)]\<rparr>"

text \<open>The distinct elements of a list, in the order of their first occurrence.\<close>

definition first_seen :: "'a list \<Rightarrow> 'a list" where
  "first_seen xs = rev (remdups (rev xs))"

text \<open>A corpus of one file whose keys have equal counts in pairs, and the statistics
  the script gathers from it.\<close>

definition ranked_doc :: json where
  "ranked_doc = JArr [JObj [(''a'', JInt 1), (''b'', JInt 2)],
                      JObj [(''c'', JInt 3), (''b'', JInt 4)],
                      JObj [(''d'', JInt 5), (''c'', JInt 6)]]"

definition ranked_env :: env where
  "ranked_env = \<lparr>isdir = True, listdir = [''p.json''], files = (\<lambda>p. Document ranked_doc)\<rparr>"

definition ranked_stats :: stats where
  "ranked_stats =
     \<lparr>key_counts = [(''a'', 1), (''b'', 2), (''c'', 2), (''d'', 1)],
      sample_values = (\<lambda>k. [])(''a'' := [JInt 1], ''b'' := [JInt 2, JInt 4],
                                 ''c'' := [JInt 3, JInt 6], ''d'' := [JInt 5]),
      round_shapes = [([''a'', ''b''], 1), ([''b'', ''c''], 1), ([''c'', ''d''], 1)]\<rparr>"

text \<open>Twenty-six rounds: one with the key \<open>first\<close>, twenty-four with the key \<open>a\<close>, and as
  the last one a round with the key \<open>last\<close>.\<close>

definition mixed_rounds :: "json list" where
  "mixed_rounds = JObj [(''first'', JInt 0)] # replicate 24 (JObj [(''a'', JInt 1)])
                    @ [JObj [(''last'', JInt 9)]]"

section \<open>The primitives are what they model\<close>

lemma endswith_iff: "endswith s suf \<longleftrightarrow> (\<exists>a. s = a @ suf)"
proof
  assume "endswith s suf"
  then have "s = take (length s - length suf) s @ suf"
    by (metis append_take_drop_id endswith_def)
  then show "\<exists>a. s = a @ suf" ..
next
  assume "\<exists>a. s = a @ suf"
  then show "endswith s suf" by (auto simp: endswith_def)
qed

lemma starts_with_iff: "starts_with p s \<longleftrightarrow> (\<exists>b. s = p @ b)"
  by (induction p s rule: starts_with.induct) auto

lemma str_in_iff: "str_in p s \<longleftrightarrow> (\<exists>a b. s = a @ p @ b)"
proof (induction s)
  case Nil
  then show ?case by auto
next
  case (Cons c cs)
  show ?case
  proof
    assume "str_in p (c # cs)"
    then consider "starts_with p (c # cs)" | "str_in p cs" by auto
    then show "\<exists>a b. c # cs = a @ p @ b"
    proof cases
      case 1
      then obtain b where "c # cs = p @ b" by (auto simp: starts_with_iff)
      then have "c # cs = [] @ p @ b" by simp
      then show ?thesis by blast
    next
      case 2
      with Cons obtain a b where "cs = a @ p @ b" by auto
      then have "c # cs = (c # a) @ p @ b" by simp
      then show ?thesis by blast
    qed
  next
    assume "\<exists>a b. c # cs = a @ p @ b"
    then obtain a b where ab: "c # cs = a @ p @ b" by blast
    show "str_in p (c # cs)"
    proof (cases a)
      case Nil
      with ab have "starts_with p (c # cs)" by (auto simp: starts_with_iff)
      then show ?thesis by simp
    next
      case (Cons x a')
      with ab have "cs = a' @ p @ b" by simp
      with Cons.IH have "str_in p cs" by blast
      then show ?thesis by simp
    qed
  qed
qed

lemma dec_value_snoc: "dec_value (s @ [c]) = 10 * dec_value s + (of_char c - 48)"
  by (simp add: dec_value_def)

lemma of_char_digit: "d < 10 \<Longrightarrow> of_char (char_of (48 + d :: nat)) = 48 + d"
  by (simp add: of_char_of)

lemma str_nat_decimal: "dec_value (str_nat n) = n"
proof (induction n rule: str_nat.induct)
  case (1 n)
  show ?case
  proof (cases "n < 10")
    case True
    then have "str_nat n = [char_of (48 + n)]"
      by (simp add: str_nat.simps)
    with True show ?thesis
      by (simp add: dec_value_def of_char_digit)
  next
    case False
    then have s: "str_nat n = str_nat (n div 10) @ [char_of (48 + n mod 10)]"
      by (subst str_nat.simps) simp
    have "dec_value (str_nat (n div 10)) = n div 10"
      using False by (rule "1.IH")
    then show ?thesis
      by (simp add: s dec_value_snoc of_char_digit)
  qed
qed



section \<open>Alias resolution\<close>

lemma usable_truthy: "usable d a = truthy (dict_get d a)"
  by (simp add: usable_def dict_get_def split: option.splits)

text \<open>
  C1, as the code has it: for a document that is a mapping, the rounds are the value of
  the first of \<open>rounds\<close>, \<open>data\<close>, \<open>items\<close> that is present with a value that counts as
  true; an alias holding an empty list (or \<open>null\<close>, \<open>false\<close>, \<open>0\<close>, an empty string, an
  empty mapping) is passed over like an absent one, and when no alias is left the
  rounds are the empty list.
\<close>

theorem rounds_of_first_truthy_alias:
  "rounds_of (JObj d) = first_truthy_alias d"
  by (simp add: first_truthy_alias_def usable_truthy py_or_def)

text \<open>
  C1 as stated fails: with \<open>rounds\<close> present and empty and \<open>data\<close> holding one record,
  the first alias present gives the empty list, while the code takes the rounds from
  \<open>data\<close> and counts the record.
\<close>

theorem rounds_of_first_present_counterexample:
  "first_present_alias [(''rounds'', JArr []), (''data'', JArr [JObj [(''a'', JInt 1)]])] = JArr []
   \<and> rounds_of (JObj [(''rounds'', JArr []), (''data'', JArr [JObj [(''a'', JInt 1)]])])
       = JArr [JObj [(''a'', JInt 1)]]
   \<and> key_counts (scan_file empty_stats
        (JObj [(''rounds'', JArr []), (''data'', JArr [JObj [(''a'', JInt 1)]])])) = [(''a'', 1)]"
  by (simp add: first_present_alias_def dict_get_def py_or_def scan_file_def add_record_def
        add_item_def empty_stats_def Let_def)

section \<open>Runs that end with an error\<close>

text \<open>
  C2: when \<open>ROUNDS_DIR\<close> is not a directory, and when it is one but no entry of its
  listing ends in \<open>.json\<close>, the run ends with \<open>SystemExit\<close>, the message names the
  directory, and nothing has been printed.
\<close>

theorem config_error_without_report:
  assumes "\<not> isdir e \<or> (\<forall>f \<in> set (listdir e). \<not> endswith f ''.json'')"
  shows "(\<exists>msg. status (main e) = Some (SystemExit msg) \<and> str_in ROUNDS_DIR msg)
         \<and> stdout (main e) = []"
proof (cases "isdir e")
  case False
  then show ?thesis by (simp add: main_def ROUNDS_DIR_def)
next
  case True
  with assms have "json_files e = []"
    by (simp add: json_files_def filter_empty_conv)
  with True show ?thesis by (simp add: main_def ROUNDS_DIR_def)
qed

theorem config_error_without_report_witness:
  "\<not> isdir \<lparr>isdir = False, listdir = [], files = (\<lambda>p. Malformed)\<rparr>
   \<and> (\<exists>msg. status (main \<lparr>isdir = False, listdir = [], files = (\<lambda>p. Malformed)\<rparr>)
              = Some (SystemExit msg) \<and> str_in ROUNDS_DIR msg)
   \<and> stdout (main \<lparr>isdir = False, listdir = [], files = (\<lambda>p. Malformed)\<rparr>) = []
   \<and> json_files \<lparr>isdir = True, listdir = [''notes.txt''], files = (\<lambda>p. Malformed)\<rparr> = []
   \<and> (\<exists>msg. status (main \<lparr>isdir = True, listdir = [''notes.txt''], files = (\<lambda>p. Malformed)\<rparr>)
              = Some (SystemExit msg) \<and> str_in ROUNDS_DIR msg)
   \<and> stdout (main \<lparr>isdir = True, listdir = [''notes.txt''], files = (\<lambda>p. Malformed)\<rparr>) = []"
  using config_error_without_report [of "\<lparr>isdir = False, listdir = [], files = (\<lambda>p. Malformed)\<rparr>"]
    config_error_without_report
      [of "\<lparr>isdir = True, listdir = [''notes.txt''], files = (\<lambda>p. Malformed)\<rparr>"]
  by (simp add: endswith_def json_files_def)

lemma scan_files_malformed:
  "fn \<in> set fns \<Longrightarrow> files e (path_join ROUNDS_DIR fn) = Malformed \<Longrightarrow>
   scan_files e st fns = Inl ParseError"
proof (induction fns arbitrary: st)
  case Nil
  then show ?case by simp
next
  case (Cons f fs)
  show ?case
  proof (cases "files e (path_join ROUNDS_DIR f)")
    case Malformed
    then show ?thesis by simp
  next
    case (Document data)
    with Cons.prems have "fn \<in> set fs" by auto
    with Cons.IH Cons.prems(2) Document show ?thesis by simp
  qed
qed

lemma selected_nonempty: "fn \<in> set (selected e) \<Longrightarrow> json_files e \<noteq> []"
  by (auto simp: selected_def)

text \<open>
  C3: when one of the files that are read does not parse, the run ends with the parse
  error and nothing has been printed, whatever the other files hold.
\<close>

theorem malformed_file_aborts_without_report:
  assumes "isdir e" and "fn \<in> set (selected e)"
    and "files e (path_join ROUNDS_DIR fn) = Malformed"
  shows "status (main e) = Some ParseError \<and> stdout (main e) = []"
proof -
  have "scan_files e empty_stats (selected e) = Inl ParseError"
    using assms(2,3) by (rule scan_files_malformed)
  moreover have "json_files e \<noteq> []"
    using assms(2) by (rule selected_nonempty)
  ultimately show ?thesis
    using assms(1) by (simp add: main_def)
qed

theorem malformed_file_aborts_without_report_witness:
  "isdir \<lparr>isdir = True, listdir = [''a.json'', ''b.json''],
      files = (\<lambda>p. if p = ''rounds/b.json'' then Malformed else Document (JArr []))\<rparr>
   \<and> ''b.json'' \<in> set (selected \<lparr>isdir = True, listdir = [''a.json'', ''b.json''],
      files = (\<lambda>p. if p = ''rounds/b.json'' then Malformed else Document (JArr []))\<rparr>)
   \<and> status (main \<lparr>isdir = True, listdir = [''a.json'', ''b.json''],
      files = (\<lambda>p. if p = ''rounds/b.json'' then Malformed else Document (JArr []))\<rparr>)
       = Some ParseError
   \<and> stdout (main \<lparr>isdir = True, listdir = [''a.json'', ''b.json''],
      files = (\<lambda>p. if p = ''rounds/b.json'' then Malformed else Document (JArr []))\<rparr>) = []"
  using malformed_file_aborts_without_report
    [of "\<lparr>isdir = True, listdir = [''a.json'', ''b.json''],
      files = (\<lambda>p. if p = ''rounds/b.json'' then Malformed else Document (JArr []))\<rparr>" "''b.json''"]
  by (simp add: selected_def json_files_def endswith_def path_join_def ROUNDS_DIR_def)

section \<open>Counters\<close>

lemma map_of_bump: "map_of (bump k c) = (map_of c)(k \<mapsto> counter_get c k + 1)"
  by (induction c) (auto simp: counter_get_def fun_eq_iff)

lemma counter_get_bump:
  "counter_get (bump k c) k' = (if k' = k then counter_get c k + 1 else counter_get c k')"
  by (simp add: counter_get_def map_of_bump)

lemma keys_bump:
  "map fst (bump k c) = (if k \<in> fst ` set c then map fst c else map fst c @ [k])"
  by (induction c) (force simp: image_iff)+

lemma distinct_bump: "distinct (map fst c) \<Longrightarrow> distinct (map fst (bump k c))"
  by (simp add: keys_bump)

lemma total_bump: "total (bump k c) = total c + 1"
  by (induction c) (auto simp: total_def)

lemma counter_get_member:
  "distinct (map fst c) \<Longrightarrow> (k, n) \<in> set c \<Longrightarrow> counter_get c k = n"
  by (simp add: counter_get_def)

lemma bump_positive: "\<forall>p \<in> set c. 0 < snd p \<Longrightarrow> \<forall>p \<in> set (bump k c). 0 < snd p"
  by (induction c) (fastforce split: if_splits)+

subsection \<open>One item\<close>

lemma key_counts_add_item: "key_counts (add_item st kv) = bump (fst kv) (key_counts st)"
  by (simp add: add_item_def Let_def)

lemma round_shapes_add_item: "round_shapes (add_item st kv) = round_shapes st"
  by (simp add: add_item_def Let_def)

lemma sample_values_add_item:
  "sample_values (add_item st kv) k =
     (if fst kv = k \<and> length (sample_values st k) < 5
      then sample_values st k @ [snd kv] else sample_values st k)"
  by (simp add: add_item_def Let_def)

section \<open>The invariant of accumulation\<close>

lemma counted_empty: "counted empty_stats"
  by (simp add: counted_def empty_stats_def counter_get_def)

lemma counted_add_item:
  assumes "counted st"
  shows "counted (add_item st kv)"
proof -
  have d: "distinct (map fst (key_counts (add_item st kv)))"
    using assms by (simp add: counted_def key_counts_add_item distinct_bump)
  have p: "\<forall>p \<in> set (key_counts (add_item st kv)). 0 < snd p"
    using assms unfolding counted_def key_counts_add_item by (intro bump_positive) simp
  have l: "length (sample_values (add_item st kv) k)
             = min 5 (counter_get (key_counts (add_item st kv)) k)" for k
    using assms
    by (auto simp: counted_def key_counts_add_item sample_values_add_item counter_get_bump)
  from d p l show ?thesis unfolding counted_def by blast
qed

lemma counted_foldl_add_item: "counted st \<Longrightarrow> counted (foldl add_item st kvs)"
  by (induction kvs arbitrary: st) (simp_all add: counted_add_item)

lemma counted_shapes: "counted (st\<lparr>round_shapes := s\<rparr>) = counted st"
  by (simp add: counted_def)

lemma counted_add_record: "counted st \<Longrightarrow> counted (add_record st r)"
  by (simp add: add_record_def counted_foldl_add_item counted_shapes)

lemma counted_scan_rounds: "counted st \<Longrightarrow> counted (scan_rounds st rs)"
  by (induction st rs rule: scan_rounds.induct) (simp_all add: counted_add_record)

lemma counted_scan_file: "counted st \<Longrightarrow> counted (scan_file st data)"
  unfolding scan_file_def
  by (auto split: json.splits list.splits intro: counted_scan_rounds)

lemma counted_scan_files:
  "counted st \<Longrightarrow> scan_files e st fns = Inr st' \<Longrightarrow> counted st'"
proof (induction fns arbitrary: st)
  case Nil
  then show ?case by simp
next
  case (Cons f fs)
  then show ?case
    by (cases "files e (path_join ROUNDS_DIR f)") (auto intro: counted_scan_file)
qed

text \<open>
  C9: after accumulation, every key \<open>k\<close> of the key counter with count \<open>n\<close> has
  \<open>min 5 n\<close> sample values, hence at least one.
\<close>

theorem samples_length_min_5_count:
  assumes "scan_files e empty_stats (selected e) = Inr st"
    and "(k, n) \<in> set (key_counts st)"
  shows "length (sample_values st k) = min 5 n \<and> 1 \<le> length (sample_values st k)"
proof -
  have c: "counted st"
    using counted_empty assms(1) by (rule counted_scan_files)
  then have "counter_get (key_counts st) k = n"
    using assms(2) by (simp add: counted_def counter_get_member)
  moreover have "0 < n"
    using c assms(2) by (auto simp: counted_def)
  ultimately show ?thesis
    using c by (simp add: counted_def)
qed


lemma six_rounds_selected: "selected six_rounds_env = [''p.json'']"
  by (simp add: selected_def json_files_def endswith_def six_rounds_env_def)

lemma six_rounds_scan:
  "scan_files six_rounds_env empty_stats (selected six_rounds_env) = Inr six_rounds_stats"
  by (simp add: six_rounds_selected)
     (simp add: six_rounds_env_def six_rounds_def six_rounds_stats_def scan_file_def
       add_record_def add_item_def empty_stats_def shape_of_def Let_def)

lemma six_rounds_accumulated:
  "accumulated six_rounds_env (selected six_rounds_env)
     = [[(''a'', JInt 1)], [(''a'', JInt 2)], [(''a'', JInt 3)],
        [(''a'', JInt 4)], [(''a'', JInt 5)], [(''a'', JInt 6)]]"
  by (simp add: six_rounds_selected)
     (simp add: six_rounds_env_def six_rounds_def sampled_records_def)

theorem samples_length_min_5_count_witness:
  "length (sample_values six_rounds_stats ''a'') = min 5 6
   \<and> 1 \<le> length (sample_values six_rounds_stats ''a'')"
proof -
  have h2: "(''a'', 6) \<in> set (key_counts six_rounds_stats)"
    by (simp add: six_rounds_stats_def)
  from samples_length_min_5_count [OF six_rounds_scan h2] show ?thesis .
qed

section \<open>What is accumulated\<close>

lemma scan_rounds_foldl: "scan_rounds st rs = foldl add_record st (dict_entries rs)"
  by (induction st rs rule: scan_rounds.induct) simp_all

lemma scan_file_foldl: "scan_file st data = foldl add_record st (sampled_records data)"
  by (simp add: scan_file_def sampled_records_def scan_rounds_foldl
      split: json.splits list.splits)

lemma scan_files_foldl:
  "scan_files e st fns = Inr st' \<Longrightarrow> st' = foldl add_record st (accumulated e fns)"
proof (induction fns arbitrary: st)
  case Nil
  then show ?case by simp
next
  case (Cons f fs)
  then show ?case
    by (cases "files e (path_join ROUNDS_DIR f)") (simp_all add: scan_file_foldl)
qed

lemma dict_entries_all_dicts:
  "\<forall>r \<in> set rs. is_dict r \<Longrightarrow> dict_entries rs = map items_of rs"
proof (induction rs)
  case Nil
  then show ?case by simp
next
  case (Cons r rs)
  then show ?case by (cases r) simp_all
qed

lemma round_shapes_foldl_add_item: "round_shapes (foldl add_item st kvs) = round_shapes st"
  by (induction kvs arbitrary: st) (simp_all add: round_shapes_add_item)

lemma round_shapes_add_record:
  "round_shapes (add_record st r) = bump (shape_of r) (round_shapes st)"
  by (simp add: add_record_def round_shapes_foldl_add_item)

lemma total_foldl_add_record:
  "total (round_shapes (foldl add_record st recs)) = total (round_shapes st) + length recs"
  by (induction recs arbitrary: st) (simp_all add: round_shapes_add_record total_bump)

section \<open>Sample values\<close>

lemma occurrences_Cons:
  "occurrences k (kv # kvs) = (if fst kv = k then snd kv # occurrences k kvs else occurrences k kvs)"
  by (simp add: occurrences_def)

lemma occurrences_append: "occurrences k (xs @ ys) = occurrences k xs @ occurrences k ys"
  by (simp add: occurrences_def)

lemma take_full_append: "length xs = n \<Longrightarrow> take n (xs @ ys) = xs"
  by simp

lemma take_take_append: "take n (take n (xs @ ys) @ zs) = take n (xs @ ys @ zs)"
  by (simp add: min_def)

lemma sample_values_foldl_add_item:
  "length (sample_values st k) \<le> 5 \<Longrightarrow>
   sample_values (foldl add_item st kvs) k = take 5 (sample_values st k @ occurrences k kvs)"
proof (induction kvs arbitrary: st)
  case Nil
  then show ?case by (simp add: occurrences_def)
next
  case (Cons kv kvs)
  let ?s = "sample_values st k"
  have le: "length (sample_values (add_item st kv) k) \<le> 5"
    using Cons.prems by (simp add: sample_values_add_item)
  have IH: "sample_values (foldl add_item (add_item st kv) kvs) k
              = take 5 (sample_values (add_item st kv) k @ occurrences k kvs)"
    using le by (rule Cons.IH)
  consider (other) "fst kv \<noteq> k" | (room) "fst kv = k" "length ?s < 5"
    | (full) "fst kv = k" "length ?s = 5"
    using Cons.prems by linarith
  then have "take 5 (sample_values (add_item st kv) k @ occurrences k kvs)
               = take 5 (?s @ occurrences k (kv # kvs))"
  proof cases
    case other
    then show ?thesis by (simp add: sample_values_add_item occurrences_Cons)
  next
    case room
    then show ?thesis by (simp add: sample_values_add_item occurrences_Cons)
  next
    case full
    then have "sample_values (add_item st kv) k = ?s"
      by (simp add: sample_values_add_item)
    moreover have "take 5 (?s @ occurrences k kvs) = ?s"
      using full(2) by (rule take_full_append)
    moreover have "take 5 (?s @ occurrences k (kv # kvs)) = ?s"
      using full(2) by (rule take_full_append)
    ultimately show ?thesis by simp
  qed
  with IH show ?case by simp
qed

lemma sample_values_add_record:
  "length (sample_values st k) \<le> 5 \<Longrightarrow>
   sample_values (add_record st r) k = take 5 (sample_values st k @ occurrences k r)"
  by (simp add: add_record_def sample_values_foldl_add_item)

lemma sample_values_foldl_add_record:
  "length (sample_values st k) \<le> 5 \<Longrightarrow>
   sample_values (foldl add_record st recs) k
     = take 5 (sample_values st k @ occurrences k (concat recs))"
proof (induction recs arbitrary: st)
  case Nil
  then show ?case by (simp add: occurrences_def)
next
  case (Cons r recs)
  have r: "sample_values (add_record st r) k = take 5 (sample_values st k @ occurrences k r)"
    using Cons.prems by (rule sample_values_add_record)
  then have "length (sample_values (add_record st r) k) \<le> 5"
    by simp
  then have "sample_values (foldl add_record (add_record st r) recs) k
              = take 5 (sample_values (add_record st r) k @ occurrences k (concat recs))"
    by (rule Cons.IH)
  also have "\<dots> = take 5 (sample_values st k @ occurrences k r @ occurrences k (concat recs))"
    unfolding r by (rule take_take_append)
  finally show ?case
    by (simp add: occurrences_append)
qed

lemma occurrences_nonempty: "k \<in> fst ` set r \<Longrightarrow> 1 \<le> length (occurrences k r)"
proof (induction r)
  case Nil
  then show ?case by simp
next
  case (Cons kv r)
  then show ?case by (cases "fst kv = k") (simp_all add: occurrences_Cons)
qed

lemma records_with_key_le_occurrences:
  "length (filter (\<lambda>r. k \<in> fst ` set r) recs) \<le> length (occurrences k (concat recs))"
proof (induction recs)
  case Nil
  then show ?case by simp
next
  case (Cons r recs)
  show ?case
  proof (cases "k \<in> fst ` set r")
    case True
    then have "1 \<le> length (occurrences k r)" by (rule occurrences_nonempty)
    with Cons True show ?thesis by (simp add: occurrences_append)
  next
    case False
    with Cons show ?thesis by (simp add: occurrences_append)
  qed
qed

text \<open>
  C5: after a run that reads its files to the end, a key that occurs in more than 5 of
  the accumulated records has exactly 5 sample values, and they are the values of its
  first 5 occurrences, in the order in which the run met them.
\<close>

theorem first_5_samples_kept:
  assumes "scan_files e empty_stats (selected e) = Inr st"
    and "5 < length (filter (\<lambda>r. k \<in> fst ` set r) (accumulated e (selected e)))"
  shows "length (sample_values st k) = 5
         \<and> sample_values st k = take 5 (occurrences k (concat (accumulated e (selected e))))"
proof -
  have "st = foldl add_record empty_stats (accumulated e (selected e))"
    using assms(1) by (rule scan_files_foldl)
  then have v: "sample_values st k
                = take 5 (occurrences k (concat (accumulated e (selected e))))"
    by (simp add: sample_values_foldl_add_record empty_stats_def)
  have "5 < length (occurrences k (concat (accumulated e (selected e))))"
    using assms(2) records_with_key_le_occurrences [of k "accumulated e (selected e)"]
    by simp
  with v show ?thesis by simp
qed

theorem first_5_samples_kept_witness:
  "length (sample_values six_rounds_stats ''a'') = 5
   \<and> sample_values six_rounds_stats ''a''
       = take 5 (occurrences ''a'' (concat (accumulated six_rounds_env (selected six_rounds_env))))
   \<and> sample_values six_rounds_stats ''a'' = [JInt 1, JInt 2, JInt 3, JInt 4, JInt 5]"
proof -
  have h2: "5 < length (filter (\<lambda>r. ''a'' \<in> fst ` set r)
                 (accumulated six_rounds_env (selected six_rounds_env)))"
    by (simp add: six_rounds_accumulated)
  have v: "sample_values six_rounds_stats ''a'' = [JInt 1, JInt 2, JInt 3, JInt 4, JInt 5]"
    by (simp add: six_rounds_stats_def)
  from first_5_samples_kept [OF six_rounds_scan h2] v show ?thesis by blast
qed

section \<open>Counts and samples after a sequence of records\<close>

lemma counter_get_foldl_add_item:
  "counter_get (key_counts (foldl add_item st kvs)) k
     = counter_get (key_counts st) k + length (occurrences k kvs)"
proof (induction kvs arbitrary: st)
  case Nil
  then show ?case by (simp add: occurrences_def)
next
  case (Cons kv kvs)
  have "counter_get (key_counts (foldl add_item (add_item st kv) kvs)) k
          = counter_get (key_counts (add_item st kv)) k + length (occurrences k kvs)"
    by (rule Cons.IH)
  then show ?case
    by (simp add: key_counts_add_item counter_get_bump occurrences_Cons)
qed

lemma key_counts_shapes_update: "key_counts (st\<lparr>round_shapes := s\<rparr>) = key_counts st"
  by simp

lemma counter_get_add_record:
  "counter_get (key_counts (add_record st r)) k
     = counter_get (key_counts st) k + length (occurrences k r)"
  by (simp add: add_record_def counter_get_foldl_add_item)

lemma counter_get_foldl_add_record:
  "counter_get (key_counts (foldl add_record st recs)) k
     = counter_get (key_counts st) k + length (occurrences k (concat recs))"
proof (induction recs arbitrary: st)
  case Nil
  then show ?case by (simp add: occurrences_def)
next
  case (Cons r recs)
  have "counter_get (key_counts (foldl add_record (add_record st r) recs)) k
          = counter_get (key_counts (add_record st r)) k + length (occurrences k (concat recs))"
    by (rule Cons.IH)
  then show ?case
    by (simp add: counter_get_add_record occurrences_append)
qed

lemma shape_count_add_record:
  "counter_get (round_shapes (add_record st r)) s
     = counter_get (round_shapes st) s + (if shape_of r = s then 1 else 0)"
  by (simp add: round_shapes_add_record counter_get_bump)

lemma shape_count_foldl_add_record:
  "counter_get (round_shapes (foldl add_record st recs)) s
     = counter_get (round_shapes st) s + length (filter (\<lambda>r. shape_of r = s) recs)"
proof (induction recs arbitrary: st)
  case Nil
  then show ?case by simp
next
  case (Cons r recs)
  have "counter_get (round_shapes (foldl add_record (add_record st r) recs)) s
          = counter_get (round_shapes (add_record st r)) s
            + length (filter (\<lambda>r. shape_of r = s) recs)"
    by (rule Cons.IH)
  then show ?case
    by (simp add: shape_count_add_record)
qed

lemma sample_values_add_item_room:
  "sample_values (add_item st kv) k
     = sample_values st k @ take (5 - length (sample_values st k)) (occurrences k [kv])"
  by (cases "length (sample_values st k) < 5")
     (simp_all add: sample_values_add_item occurrences_Cons occurrences_def)

lemma take_room_append:
  "take (n - length xs) ys @ take (n - length (xs @ take (n - length xs) ys)) zs
     = take (n - length xs) (ys @ zs)"
  by (cases "length ys \<le> n - length xs") (simp_all add: min_def)

lemma sample_values_foldl_add_item_room:
  "sample_values (foldl add_item st kvs) k
     = sample_values st k @ take (5 - length (sample_values st k)) (occurrences k kvs)"
proof (induction kvs arbitrary: st)
  case Nil
  then show ?case by (simp add: occurrences_def)
next
  case (Cons kv kvs)
  let ?s = "sample_values st k"
  let ?o = "occurrences k [kv]"
  have "sample_values (foldl add_item (add_item st kv) kvs) k
          = sample_values (add_item st kv) k
            @ take (5 - length (sample_values (add_item st kv) k)) (occurrences k kvs)"
    by (rule Cons.IH)
  also have "\<dots> = (?s @ take (5 - length ?s) ?o)
            @ take (5 - length (?s @ take (5 - length ?s) ?o)) (occurrences k kvs)"
    by (simp only: sample_values_add_item_room)
  also have "\<dots> = ?s @ take (5 - length ?s) (?o @ occurrences k kvs)"
    using take_room_append [of 5 ?s ?o "occurrences k kvs"] by simp
  also have "?o @ occurrences k kvs = occurrences k (kv # kvs)"
    by (simp add: occurrences_def)
  finally show ?case by simp
qed

lemma sample_values_add_record_room:
  "sample_values (add_record st r) k
     = sample_values st k @ take (5 - length (sample_values st k)) (occurrences k r)"
  by (simp add: add_record_def sample_values_foldl_add_item_room)

lemma sample_values_foldl_add_record_room:
  "sample_values (foldl add_record st recs) k
     = sample_values st k
       @ take (5 - length (sample_values st k)) (occurrences k (concat recs))"
proof (induction recs arbitrary: st)
  case Nil
  then show ?case by (simp add: occurrences_def)
next
  case (Cons r recs)
  let ?s = "sample_values st k"
  let ?o = "occurrences k r"
  have "sample_values (foldl add_record (add_record st r) recs) k
          = sample_values (add_record st r) k
            @ take (5 - length (sample_values (add_record st r) k))
                (occurrences k (concat recs))"
    by (rule Cons.IH)
  also have "\<dots> = (?s @ take (5 - length ?s) ?o)
            @ take (5 - length (?s @ take (5 - length ?s) ?o)) (occurrences k (concat recs))"
    by (simp only: sample_values_add_record_room)
  also have "\<dots> = ?s @ take (5 - length ?s) (?o @ occurrences k (concat recs))"
    using take_room_append [of 5 ?s ?o "occurrences k (concat recs)"] by simp
  also have "?o @ occurrences k (concat recs) = occurrences k (concat (r # recs))"
    by (simp add: occurrences_append)
  finally show ?case by simp
qed

text \<open>
  C4: when the rounds of a file are a non-empty list of \<open>N\<close> dicts, the file adds to the
  statistics exactly the first \<open>min N 25\<close> of them, in the order of the list: all of
  them when \<open>N \<le> 25\<close>, the first 25 otherwise. Every key count grows by the number of
  occurrences of the key in these records, the samples of a key are extended by the
  values of its occurrences in these records as far as the room up to 5 goes, and every
  shape count grows by the number of these records that have the shape, \<open>min N 25\<close> in
  total. A record after the 25th changes nothing.
\<close>

theorem first_25_records_accumulated:
  assumes "rounds_of data = JArr rs" and "rs \<noteq> []" and "\<forall>r \<in> set rs. is_dict r"
  shows "scan_file st data = foldl add_record st (map items_of (take 25 rs))
         \<and> length (take 25 rs) = min (length rs) 25
         \<and> total (round_shapes (scan_file st data))
             = total (round_shapes st) + min (length rs) 25
         \<and> (\<forall>k. counter_get (key_counts (scan_file st data)) k
                  = counter_get (key_counts st) k
                    + length (occurrences k (concat (map items_of (take 25 rs)))))
         \<and> (\<forall>k. sample_values (scan_file st data) k
                  = sample_values st k
                    @ take (5 - length (sample_values st k))
                        (occurrences k (concat (map items_of (take 25 rs)))))
         \<and> (\<forall>s. counter_get (round_shapes (scan_file st data)) s
                  = counter_get (round_shapes st) s
                    + length (filter (\<lambda>r. shape_of (items_of r) = s) (take 25 rs)))"
proof -
  let ?recs = "map items_of (take 25 rs)"
  from assms(3) have "\<forall>r \<in> set (take 25 rs). is_dict r"
    by (auto dest: in_set_takeD)
  then have "dict_entries (take 25 rs) = ?recs"
    by (rule dict_entries_all_dicts)
  with assms(1,2) have s: "sampled_records data = ?recs"
    by (cases rs) (simp_all add: sampled_records_def)
  then have f: "scan_file st data = foldl add_record st ?recs"
    by (simp add: scan_file_foldl)
  have t: "total (round_shapes (scan_file st data))
             = total (round_shapes st) + min (length rs) 25"
    by (simp add: f total_foldl_add_record)
  have k: "counter_get (key_counts (scan_file st data)) k
             = counter_get (key_counts st) k + length (occurrences k (concat ?recs))" for k
    unfolding f by (rule counter_get_foldl_add_record)
  have v: "sample_values (scan_file st data) k
             = sample_values st k
               @ take (5 - length (sample_values st k)) (occurrences k (concat ?recs))" for k
    unfolding f by (rule sample_values_foldl_add_record_room)
  have "counter_get (round_shapes (scan_file st data)) s
             = counter_get (round_shapes st) s
               + length (filter (\<lambda>r. shape_of r = s) ?recs)" for s
    unfolding f by (rule shape_count_foldl_add_record)
  then have h: "counter_get (round_shapes (scan_file st data)) s
             = counter_get (round_shapes st) s
               + length (filter (\<lambda>r. shape_of (items_of r) = s) (take 25 rs))" for s
    by (simp add: filter_map comp_def)
  from f t k v h show ?thesis by simp
qed

lemma mixed_rounds_facts:
  "length mixed_rounds = 26"
  "length (occurrences ''first'' (concat (map items_of (take 25 mixed_rounds)))) = 1"
  "length (occurrences ''a'' (concat (map items_of (take 25 mixed_rounds)))) = 24"
  "length (occurrences ''last'' (concat (map items_of (take 25 mixed_rounds)))) = 0"
  "take 5 (occurrences ''a'' (concat (map items_of (take 25 mixed_rounds))))
     = [JInt 1, JInt 1, JInt 1, JInt 1, JInt 1]"
  "length (filter (\<lambda>r. shape_of (items_of r) = [''last'']) (take 25 mixed_rounds)) = 0"
  "length (filter (\<lambda>r. shape_of (items_of r) = [''a'']) (take 25 mixed_rounds)) = 24"
  by code_simp+

theorem first_25_records_accumulated_witness:
  "counter_get (key_counts (scan_file empty_stats (JArr mixed_rounds))) ''first'' = 1
   \<and> counter_get (key_counts (scan_file empty_stats (JArr mixed_rounds))) ''a'' = 24
   \<and> counter_get (key_counts (scan_file empty_stats (JArr mixed_rounds))) ''last'' = 0
   \<and> sample_values (scan_file empty_stats (JArr mixed_rounds)) ''a''
       = [JInt 1, JInt 1, JInt 1, JInt 1, JInt 1]
   \<and> counter_get (round_shapes (scan_file empty_stats (JArr mixed_rounds))) [''a''] = 24
   \<and> counter_get (round_shapes (scan_file empty_stats (JArr mixed_rounds))) [''last''] = 0
   \<and> total (round_shapes (scan_file empty_stats (JArr mixed_rounds))) = 25"
proof -
  have h1: "rounds_of (JArr mixed_rounds) = JArr mixed_rounds"
    by simp
  have h2: "mixed_rounds \<noteq> []"
    by (simp add: mixed_rounds_def)
  have h3: "\<forall>r \<in> set mixed_rounds. is_dict r"
    by (simp add: mixed_rounds_def)
  have e: "counter_get (key_counts empty_stats) k = 0" "sample_values empty_stats k = []"
    "counter_get (round_shapes empty_stats) s = 0" "total (round_shapes empty_stats) = 0"
    for k :: string and s :: "string list"
    by (simp_all add: empty_stats_def counter_get_def total_def)
  note t = first_25_records_accumulated [OF h1 h2 h3, of empty_stats]
  from t have k: "counter_get (key_counts (scan_file empty_stats (JArr mixed_rounds))) k
      = counter_get (key_counts empty_stats) k
        + length (occurrences k (concat (map items_of (take 25 mixed_rounds))))" for k
    by blast
  from t have v: "sample_values (scan_file empty_stats (JArr mixed_rounds)) k
      = sample_values empty_stats k
        @ take (5 - length (sample_values empty_stats k))
            (occurrences k (concat (map items_of (take 25 mixed_rounds))))" for k
    by blast
  from t have s: "counter_get (round_shapes (scan_file empty_stats (JArr mixed_rounds))) s
      = counter_get (round_shapes empty_stats) s
        + length (filter (\<lambda>r. shape_of (items_of r) = s) (take 25 mixed_rounds))" for s
    by blast
  from t have n: "total (round_shapes (scan_file empty_stats (JArr mixed_rounds)))
      = total (round_shapes empty_stats) + min (length mixed_rounds) 25"
    by blast
  show ?thesis
    unfolding k v s n by (simp add: e mixed_rounds_facts)
qed

section \<open>Shapes\<close>

lemma sort_determined_by_set:
  fixes xs ys :: "'a::linorder list"
  assumes "distinct xs" and "distinct ys" and "set xs = set ys"
  shows "sort xs = sort ys"
proof (rule sorted_distinct_set_unique)
  show "sorted (sort xs)" and "sorted (sort ys)" by simp_all
  show "distinct (sort xs)" using assms(1) by simp
  show "distinct (sort ys)" using assms(2) by simp
  show "set (sort xs) = set (sort ys)" using assms(3) by simp
qed

text \<open>
  C6: two records (dicts, so each with distinct keys) that have the same set of keys,
  in whatever order, have the same shape fingerprint, and each of them raises by one the
  count of that one entry of the shape counter: after both, that count has grown by
  two and no other count has changed.
\<close>

theorem same_key_set_same_shape:
  assumes "distinct (map fst r1)" and "distinct (map fst r2)"
    and "fst ` set r1 = fst ` set r2"
  shows "shape_of r1 = shape_of r2
         \<and> round_shapes (add_record st r1) = round_shapes (add_record st r2)
         \<and> counter_get (round_shapes (add_record st r1)) (shape_of r2)
             = counter_get (round_shapes st) (shape_of r2) + 1
         \<and> counter_get (round_shapes (add_record st r2)) (shape_of r1)
             = counter_get (round_shapes st) (shape_of r1) + 1
         \<and> counter_get (round_shapes (add_record (add_record st r1) r2)) (shape_of r1)
             = counter_get (round_shapes st) (shape_of r1) + 2
         \<and> (\<forall>s. s \<noteq> shape_of r1 \<longrightarrow>
               counter_get (round_shapes (add_record (add_record st r1) r2)) s
                 = counter_get (round_shapes st) s)"
proof -
  have "shape_of r1 = shape_of r2"
    unfolding shape_of_def using assms by (intro sort_determined_by_set) simp_all
  then show ?thesis by (simp add: round_shapes_add_record counter_get_bump)
qed

theorem same_key_set_same_shape_witness:
  "shape_of [(''player'', JStr ''A''), (''score'', JInt 70)] = [''player'', ''score'']
   \<and> shape_of [(''score'', JInt 71), (''player'', JStr ''B'')] = [''player'', ''score'']
   \<and> round_shapes (add_record (add_record empty_stats
          [(''player'', JStr ''A''), (''score'', JInt 70)])
          [(''score'', JInt 71), (''player'', JStr ''B'')])
       = [([''player'', ''score''], 2)]
   \<and> counter_get (round_shapes (add_record (add_record empty_stats
          [(''player'', JStr ''A''), (''score'', JInt 70)])
          [(''score'', JInt 71), (''player'', JStr ''B'')])) [''player'', ''score''] = 2"
proof -
  have h1: "distinct (map fst [(''player'', JStr ''A''), (''score'', JInt 70)])"
    by simp
  have h2: "distinct (map fst [(''score'', JInt 71), (''player'', JStr ''B'')])"
    by simp
  have h3: "fst ` set [(''player'', JStr ''A''), (''score'', JInt 70)]
              = fst ` set [(''score'', JInt 71), (''player'', JStr ''B'')]"
    by auto
  have s: "shape_of [(''player'', JStr ''A''), (''score'', JInt 70)] = [''player'', ''score'']"
    "shape_of [(''score'', JInt 71), (''player'', JStr ''B'')] = [''player'', ''score'']"
    by (simp_all add: shape_of_def)
  have r: "round_shapes (add_record (add_record empty_stats
          [(''player'', JStr ''A''), (''score'', JInt 70)])
          [(''score'', JInt 71), (''player'', JStr ''B'')])
       = [([''player'', ''score''], 2)]"
    by (simp add: round_shapes_add_record s empty_stats_def)
  have z: "counter_get (round_shapes empty_stats) [''player'', ''score''] = 0"
    by (simp add: empty_stats_def counter_get_def)
  from same_key_set_same_shape [OF h1 h2 h3, of empty_stats]
  have "counter_get (round_shapes (add_record (add_record empty_stats
          [(''player'', JStr ''A''), (''score'', JInt 70)])
          [(''score'', JInt 71), (''player'', JStr ''B'')]))
          (shape_of [(''player'', JStr ''A''), (''score'', JInt 70)])
        = counter_get (round_shapes empty_stats)
            (shape_of [(''player'', JStr ''A''), (''score'', JInt 70)]) + 2"
    by blast
  with s r z show ?thesis by simp
qed

section \<open>Candidates\<close>













section \<open>Ranking\<close>

lemma mset_ranking: "mset (ranking c) = mset c"
  by (simp add: ranking_def)

lemma sorted_ranking: "sorted_wrt (\<lambda>p q. snd q \<le> snd p) (ranking c)"
proof -
  have "sorted (map snd (sort_key snd (rev c)))"
    by (rule sorted_sort_key)
  then have "sorted_wrt (\<lambda>p q. snd p \<le> snd q) (sort_key snd (rev c))"
    by (simp add: sorted_map)
  then show ?thesis
    by (simp add: ranking_def sorted_wrt_rev)
qed

lemma stable_ranking: "filter (\<lambda>p. snd p = n) (ranking c) = filter (\<lambda>p. snd p = n) c"
proof -
  have "filter (\<lambda>p. snd p = n) (sort_key snd (rev c)) = filter (\<lambda>p. snd p = n) (rev c)"
    by (rule sort_key_stable)
  then show ?thesis
    by (simp add: ranking_def rev_filter [symmetric])
qed

lemma remdups_append_member: "x \<in> set b \<Longrightarrow> remdups (a @ x # b) = remdups (a @ b)"
  by (induction a) auto

lemma first_seen_snoc:
  "first_seen (xs @ [x]) = (if x \<in> set xs then first_seen xs else first_seen xs @ [x])"
  using remdups_append_member [of x "rev xs" "[]"]
  by (auto simp: first_seen_def)

lemma set_first_seen: "set (first_seen xs) = set xs"
  by (simp add: first_seen_def)

lemma keys_foldl_add_item:
  "map fst (key_counts st) = first_seen ks \<Longrightarrow>
   map fst (key_counts (foldl add_item st kvs)) = first_seen (ks @ map fst kvs)"
proof (induction kvs arbitrary: st ks)
  case Nil
  then show ?case by simp
next
  case (Cons kv kvs)
  have "fst ` set (key_counts st) = set ks"
    using Cons.prems by (metis set_first_seen set_map)
  then have "map fst (key_counts (add_item st kv)) = first_seen (ks @ [fst kv])"
    using Cons.prems by (simp add: key_counts_add_item keys_bump first_seen_snoc)
  then have "map fst (key_counts (foldl add_item (add_item st kv) kvs))
               = first_seen ((ks @ [fst kv]) @ map fst kvs)"
    by (rule Cons.IH)
  then show ?case by simp
qed

lemma keys_add_record:
  "map fst (key_counts st) = first_seen ks \<Longrightarrow>
   map fst (key_counts (add_record st r)) = first_seen (ks @ map fst r)"
  by (simp add: add_record_def keys_foldl_add_item)

lemma keys_foldl_add_record:
  "map fst (key_counts st) = first_seen ks \<Longrightarrow>
   map fst (key_counts (foldl add_record st recs)) = first_seen (ks @ map fst (concat recs))"
proof (induction recs arbitrary: st ks)
  case Nil
  then show ?case by simp
next
  case (Cons r recs)
  from Cons.prems have "map fst (key_counts (add_record st r)) = first_seen (ks @ map fst r)"
    by (rule keys_add_record)
  then have "map fst (key_counts (foldl add_record (add_record st r) recs))
               = first_seen ((ks @ map fst r) @ map fst (concat recs))"
    by (rule Cons.IH)
  then show ?case by simp
qed

lemma keys_in_first_encounter_order:
  assumes "scan_files e empty_stats fns = Inr st"
  shows "map fst (key_counts st) = first_seen (map fst (concat (accumulated e fns)))"
proof -
  have "st = foldl add_record empty_stats (accumulated e fns)"
    using assms by (rule scan_files_foldl)
  moreover have "map fst (key_counts empty_stats) = first_seen []"
    by (simp add: empty_stats_def first_seen_def)
  ultimately show ?thesis
    using keys_foldl_add_record [of empty_stats "[]" "accumulated e fns"] by simp
qed

lemma main_prints_report:
  "isdir e \<Longrightarrow> json_files e \<noteq> [] \<Longrightarrow> scan_files e empty_stats (selected e) = Inr st \<Longrightarrow>
   main e = \<lparr>stdout = report st, status = None\<rparr>"
  by (simp add: main_def)

lemma frequency_counted:
  assumes "scan_files e empty_stats fns = Inr st"
  shows "counter_get (key_counts st) k = length (occurrences k (concat (accumulated e fns)))"
proof -
  have "st = foldl add_record empty_stats (accumulated e fns)"
    using assms by (rule scan_files_foldl)
  then show ?thesis
    by (simp add: counter_get_foldl_add_record) (simp add: empty_stats_def counter_get_def)
qed

text \<open>
  C8: a run that reads its files to the end prints first the section of the top keys:
  its heading, then one line for each of the first 40 entries of the ranking of the key
  counter. The counter holds every key once, with the number of its occurrences in the
  accumulated records. The ranking holds every entry of the counter once, in
  descending order of count, and entries of equal count stand in the order of the
  counter, which is the order in which the keys were first met during accumulation. A
  line is the key, spaces up to 30 characters, two more spaces, and the count in
  decimal digits.
\<close>

theorem top_keys_ranked_and_formatted:
  assumes "isdir e" and "json_files e \<noteq> []"
    and "scan_files e empty_stats (selected e) = Inr st"
  shows "stdout (main e) = top_keys st @ samples st @ heuristics st @ shapes st
   \<and> top_keys st = (CHR 0x0A # ''=== TOP KEYS (most common) ==='')
                   # map key_line (take 40 (ranking (key_counts st)))
   \<and> mset (ranking (key_counts st)) = mset (key_counts st)
   \<and> sorted_wrt (\<lambda>p q. snd q \<le> snd p) (ranking (key_counts st))
   \<and> (\<forall>n. filter (\<lambda>p. snd p = n) (ranking (key_counts st))
           = filter (\<lambda>p. snd p = n) (key_counts st))
   \<and> map fst (key_counts st) = first_seen (map fst (concat (accumulated e (selected e))))
   \<and> (\<forall>k n. key_line (k, n) = k @ replicate (30 - length k) CHR '' '' @ ''  '' @ str_nat n)
   \<and> distinct (map fst (key_counts st))
   \<and> (\<forall>k n. (k, n) \<in> set (key_counts st) \<longrightarrow>
        n = length (occurrences k (concat (accumulated e (selected e)))))
   \<and> (\<forall>k n. (k, n) \<in> set (ranking (key_counts st)) \<longrightarrow>
        n = length (occurrences k (concat (accumulated e (selected e)))))
   \<and> (\<forall>n. dec_value (str_nat n) = n)"
proof -
  have o: "stdout (main e) = top_keys st @ samples st @ heuristics st @ shapes st"
    using assms by (simp add: main_prints_report report_def)
  have f: "map fst (key_counts st)
                   = first_seen (map fst (concat (accumulated e (selected e))))"
    using assms(3) by (rule keys_in_first_encounter_order)
  have c: "counted st"
    using counted_empty assms(3) by (rule counted_scan_files)
  then have d: "distinct (map fst (key_counts st))"
    by (simp add: counted_def)
  have n: "n = length (occurrences k (concat (accumulated e (selected e))))"
    if "(k, n) \<in> set (key_counts st)" for k n
  proof -
    have "counter_get (key_counts st) k = n"
      using d that by (rule counter_get_member)
    then show ?thesis
      using frequency_counted [OF assms(3), of k] by simp
  qed
  have r: "n = length (occurrences k (concat (accumulated e (selected e))))"
    if "(k, n) \<in> set (ranking (key_counts st))" for k n
  proof -
    have "set (ranking (key_counts st)) = set (key_counts st)"
      by (metis mset_ranking set_mset_mset)
    with that n show ?thesis by blast
  qed
  have t: "top_keys st = (CHR 0x0A # ''=== TOP KEYS (most common) ==='')
                   # map key_line (take 40 (ranking (key_counts st)))"
    by (simp add: top_keys_def most_common_def)
  have l: "key_line (k, n) = k @ replicate (30 - length k) CHR '' '' @ ''  '' @ str_nat n"
    for k n
    by (simp add: key_line_def ljust_def)
  from o t f d n r l show ?thesis
    by (simp add: mset_ranking sorted_ranking stable_ranking str_nat_decimal)
qed

lemma ranked_selected: "selected ranked_env = [''p.json'']"
  by (simp add: selected_def json_files_def endswith_def ranked_env_def)

lemma ranked_scan:
  "scan_files ranked_env empty_stats (selected ranked_env) = Inr ranked_stats"
  by (simp add: ranked_selected)
     (simp add: ranked_env_def ranked_doc_def ranked_stats_def scan_file_def
       add_record_def add_item_def empty_stats_def shape_of_def Let_def fun_upd_twist)

lemma ranked_lines:
  "map key_line (take 40 (ranking (key_counts ranked_stats)))
     = [''b'' @ replicate 29 CHR '' '' @ ''  2'',
        ''c'' @ replicate 29 CHR '' '' @ ''  2'',
        ''a'' @ replicate 29 CHR '' '' @ ''  1'',
        ''d'' @ replicate 29 CHR '' '' @ ''  1'']"
  by (simp add: ranked_stats_def ranking_def key_line_def ljust_def str_nat.simps
      char_of_def bit_Suc_0_iff)

theorem top_keys_ranked_and_formatted_witness:
  "top_keys ranked_stats
     = [CHR 0x0A # ''=== TOP KEYS (most common) ==='',
        ''b'' @ replicate 29 CHR '' '' @ ''  2'',
        ''c'' @ replicate 29 CHR '' '' @ ''  2'',
        ''a'' @ replicate 29 CHR '' '' @ ''  1'',
        ''d'' @ replicate 29 CHR '' '' @ ''  1'']
   \<and> take 5 (stdout (main ranked_env)) = top_keys ranked_stats
   \<and> map fst (key_counts ranked_stats) = [''a'', ''b'', ''c'', ''d'']"
proof -
  have h1: "isdir ranked_env"
    by (simp add: ranked_env_def)
  have h2: "json_files ranked_env \<noteq> []"
    by (simp add: json_files_def endswith_def ranked_env_def)
  note t = top_keys_ranked_and_formatted [OF h1 h2 ranked_scan]
  from t have a: "top_keys ranked_stats = (CHR 0x0A # ''=== TOP KEYS (most common) ==='')
                   # map key_line (take 40 (ranking (key_counts ranked_stats)))"
    by blast
  from t have b: "stdout (main ranked_env)
      = top_keys ranked_stats @ samples ranked_stats @ heuristics ranked_stats @ shapes ranked_stats"
    by blast
  have l: "length (top_keys ranked_stats) = 5"
    unfolding a ranked_lines by simp
  have c: "map fst (key_counts ranked_stats) = [''a'', ''b'', ''c'', ''d'']"
    by (simp add: ranked_stats_def)
  from a b c l show ?thesis
    unfolding ranked_lines by simp
qed

section \<open>What a run depends on\<close>

lemma scan_files_cong:
  "\<forall>fn \<in> set fns. files e1 (path_join ROUNDS_DIR fn) = files e2 (path_join ROUNDS_DIR fn) \<Longrightarrow>
   scan_files e1 st fns = scan_files e2 st fns"
proof (induction fns arbitrary: st)
  case Nil
  then show ?case by simp
next
  case (Cons f fs)
  then show ?case
    by (cases "files e2 (path_join ROUNDS_DIR f)") simp_all
qed

text \<open>
  Of the file system, \<open>main\<close> reads whether \<open>ROUNDS_DIR\<close> is a directory, its listing and
  the files it selects; the files it does not select do not reach the run.
\<close>

lemma main_reads_selected_files_only:
  assumes "isdir e1 = isdir e2" and "listdir e1 = listdir e2"
    and "\<forall>fn \<in> set (selected e1).
           files e1 (path_join ROUNDS_DIR fn) = files e2 (path_join ROUNDS_DIR fn)"
  shows "main e1 = main e2"
proof -
  have j: "json_files e1 = json_files e2"
    using assms(2) by (simp add: json_files_def)
  then have s: "selected e1 = selected e2"
    by (simp add: selected_def)
  have "scan_files e1 empty_stats (selected e1) = scan_files e2 empty_stats (selected e1)"
    using assms(3) by (rule scan_files_cong)
  with j s assms(1) show ?thesis
    by (simp add: main_def)
qed

end
